theory Spec2Isabelle
  imports Main "HOL-Library.FSet" "HOL-Library.Finite_Map"
begin

section \<open>Data model of \<^verbatim>\<open>rbac.go\<close>\<close>

text \<open>
  The two error values of the package, and the run-time panic that Go raises on an
  assignment into a nil map (\<^verbatim>\<open>rbac.parents[id][parent] = empty\<close> when
  \<^verbatim>\<open>rbac.parents[id]\<close> is absent).
\<close>

datatype error = ErrRoleNotExist | ErrRoleExist | PanicNilMap

text \<open>
  Modelled from the spec: the types \<^verbatim>\<open>Role[K]\<close>, \<^verbatim>\<open>Roles[K]\<close> and
  \<^verbatim>\<open>Permission[K]\<close> are declared outside \<^verbatim>\<open>rbac.go\<close>. The engine uses a role
  only through its field \<^verbatim>\<open>ID\<close> and its method \<^verbatim>\<open>Permit\<close> ("does this role
  directly grant permission P?"), and a permission only as the argument of that method,
  so a role is a record of exactly these two and the permission type stays a type variable.
\<close>

record ('k, 'p) Role =
  ID :: 'k
  Permit :: "'p \<Rightarrow> bool"

type_synonym ('k, 'p) Roles = "('k, ('k, 'p) Role) fmap"

text \<open>
  \<^verbatim>\<open>parents map[K]map[K]struct{}\<close>: a finite map from a role id to a finite set of
  parent ids. An absent key and a key bound to the empty set are different states, as in Go.
\<close>

type_synonym 'k Parents = "('k, 'k fset) fmap"

record ('k, 'p) RBAC =
  roles :: "('k, 'p) Roles"
  parents :: "'k Parents"

text \<open>
  Go leaves the order of a \<^verbatim>\<open>range\<close> over a map unspecified, and it may differ from
  one loop to the next. Every function that ranges over a map takes the order as a
  parameter: given the place of the loop in the run (a list of role ids: the call path
  of the recursion, or the key of the bucket being scanned) and the key set of the map,
  it lists the keys in the order in which the loop visits them. A legal order lists
  every key exactly once.
\<close>

type_synonym 'k range_order = "'k list \<Rightarrow> 'k fset \<Rightarrow> 'k list"

definition valid_order :: "'k range_order \<Rightarrow> bool" where
  "valid_order ord \<longleftrightarrow> (\<forall>site S. distinct (ord site S) \<and> fset_of_list (ord site S) = S)"

text \<open>One legal order for keys that are linearly ordered: ascending, at every loop.\<close>

definition ascending :: "('k::linorder) range_order" where
  "ascending site S = sorted_list_of_fset S"

section \<open>Construction and the parent-edge operations\<close>

definition New :: "('k, 'p) RBAC" where
  "New = \<lparr>roles = fmempty, parents = fmempty\<rparr>"

text \<open>The first loop of \<^verbatim>\<open>SetParents\<close>: return at the first parent that is not a role.\<close>

fun check_parents :: "('k, 'p) Roles \<Rightarrow> 'k list \<Rightarrow> error option" where
  "check_parents rs [] = None"
| "check_parents rs (parent # rest) =
     (if fmlookup rs parent = None then Some ErrRoleNotExist else check_parents rs rest)"

text \<open>
  \<^verbatim>\<open>rbac.parents[id][parent] = empty\<close>: insert into the bucket of \<open>id\<close>; Go panics
  when the bucket is a nil map.
\<close>

definition put_parent :: "'k Parents \<Rightarrow> 'k \<Rightarrow> 'k \<Rightarrow> error + 'k Parents" where
  "put_parent ps id' parent =
     (case fmlookup ps id' of
        None \<Rightarrow> Inl PanicNilMap
      | Some bucket \<Rightarrow> Inr (fmupd id' (finsert parent bucket) ps))"

text \<open>The second loop of \<^verbatim>\<open>SetParents\<close>.\<close>

fun put_parents :: "'k Parents \<Rightarrow> 'k \<Rightarrow> 'k list \<Rightarrow> error + 'k Parents" where
  "put_parents ps id' [] = Inr ps"
| "put_parents ps id' (parent # rest) =
     (case put_parent ps id' parent of
        Inl e \<Rightarrow> Inl e
      | Inr ps' \<Rightarrow> put_parents ps' id' rest)"

text \<open>
  \<^verbatim>\<open>if _, ok := rbac.parents[id]; !ok { rbac.parents[id] = make(map[K]struct{}) }\<close>
\<close>

definition ensure_bucket :: "'k Parents \<Rightarrow> 'k \<Rightarrow> 'k Parents" where
  "ensure_bucket ps id' = (if fmlookup ps id' = None then fmupd id' {||} ps else ps)"

text \<open>
  A mutating method returns the error (\<open>None\<close> is Go's \<^verbatim>\<open>nil\<close>) together with the
  engine as the call leaves it, so that what a failing call does to the engine is part
  of the model. A panic leaves the engine as it was when the panic was raised.
\<close>

definition SetParents :: "('k, 'p) RBAC \<Rightarrow> 'k \<Rightarrow> 'k list \<Rightarrow> error option \<times> ('k, 'p) RBAC" where
  "SetParents rbac id' ps =
     (if fmlookup (roles rbac) id' = None then (Some ErrRoleNotExist, rbac)
      else case check_parents (roles rbac) ps of
        Some e \<Rightarrow> (Some e, rbac)
      | None \<Rightarrow>
          (let rbac1 = rbac\<lparr>parents := ensure_bucket (parents rbac) id'\<rparr>
           in case put_parents (parents rbac1) id' ps of
                Inl e \<Rightarrow> (Some e, rbac1)
              | Inr ps' \<Rightarrow> (None, rbac1\<lparr>parents := ps'\<rparr>)))"

definition GetParents :: "'k range_order \<Rightarrow> ('k, 'p) RBAC \<Rightarrow> 'k \<Rightarrow> error + 'k list" where
  "GetParents ord rbac id' =
     (if fmlookup (roles rbac) id' = None then Inl ErrRoleNotExist
      else case fmlookup (parents rbac) id' of
        None \<Rightarrow> Inr []
      | Some ids \<Rightarrow> Inr (ord [id'] ids))"

definition SetParent :: "('k, 'p) RBAC \<Rightarrow> 'k \<Rightarrow> 'k \<Rightarrow> error option \<times> ('k, 'p) RBAC" where
  "SetParent rbac id' parent =
     (if fmlookup (roles rbac) id' = None then (Some ErrRoleNotExist, rbac)
      else if fmlookup (roles rbac) parent = None then (Some ErrRoleNotExist, rbac)
      else
        (let rbac1 = rbac\<lparr>parents := ensure_bucket (parents rbac) id'\<rparr>
         in case put_parent (parents rbac1) id' parent of
              Inl e \<Rightarrow> (Some e, rbac1)
            | Inr ps' \<Rightarrow> (None, rbac1\<lparr>parents := ps'\<rparr>)))"

text \<open>\<^verbatim>\<open>delete(rbac.parents[id], parent)\<close>: deleting from a nil map does nothing.\<close>

definition delete_parent :: "'k Parents \<Rightarrow> 'k \<Rightarrow> 'k \<Rightarrow> 'k Parents" where
  "delete_parent ps id' parent =
     (case fmlookup ps id' of
        None \<Rightarrow> ps
      | Some bucket \<Rightarrow> fmupd id' (bucket |-| {|parent|}) ps)"

definition RemoveParent :: "('k, 'p) RBAC \<Rightarrow> 'k \<Rightarrow> 'k \<Rightarrow> error option \<times> ('k, 'p) RBAC" where
  "RemoveParent rbac id' parent =
     (if fmlookup (roles rbac) id' = None then (Some ErrRoleNotExist, rbac)
      else if fmlookup (roles rbac) parent = None then (Some ErrRoleNotExist, rbac)
      else (None, rbac\<lparr>parents := delete_parent (parents rbac) id' parent\<rparr>))"

section \<open>The role store\<close>

definition Add :: "('k, 'p) RBAC \<Rightarrow> ('k, 'p) Role \<Rightarrow> error option \<times> ('k, 'p) RBAC" where
  "Add rbac r =
     (if fmlookup (roles rbac) (ID r) = None
      then (None, rbac\<lparr>roles := fmupd (ID r) r (roles rbac)\<rparr>)
      else (Some ErrRoleExist, rbac))"

text \<open>
  The inner loop of \<^verbatim>\<open>Remove\<close>, over the bucket of \<open>rid\<close> in the order given:
  at the first parent equal to \<open>id\<close>, delete it from the bucket and \<^verbatim>\<open>break\<close>.
\<close>

fun scrub_bucket :: "'k \<Rightarrow> 'k \<Rightarrow> 'k list \<Rightarrow> 'k Parents \<Rightarrow> 'k Parents" where
  "scrub_bucket id' rid [] ps = ps"
| "scrub_bucket id' rid (parent # rest) ps =
     (if parent = id' then delete_parent ps rid id' else scrub_bucket id' rid rest ps)"

text \<open>
  The outer loop of \<^verbatim>\<open>Remove\<close>, over the keys of \<^verbatim>\<open>rbac.parents\<close> in the order
  given. The loop deletes entries while it ranges: an entry deleted before the loop
  reaches it is not produced, which is the \<open>None\<close> branch.
\<close>

fun scrub :: "'k range_order \<Rightarrow> 'k \<Rightarrow> 'k list \<Rightarrow> 'k Parents \<Rightarrow> 'k Parents" where
  "scrub ord id' [] ps = ps"
| "scrub ord id' (rid # rest) ps =
     (case fmlookup ps rid of
        None \<Rightarrow> scrub ord id' rest ps
      | Some bucket \<Rightarrow>
          if rid = id' then scrub ord id' rest (fmdrop rid ps)
          else scrub ord id' rest (scrub_bucket id' rid (ord [rid] bucket) ps))"

definition Remove :: "'k range_order \<Rightarrow> ('k, 'p) RBAC \<Rightarrow> 'k \<Rightarrow> error option \<times> ('k, 'p) RBAC" where
  "Remove ord rbac id' =
     (if fmlookup (roles rbac) id' \<noteq> None
      then (None, rbac\<lparr>roles := fmdrop id' (roles rbac),
                       parents := scrub ord id' (ord [] (fmdom (parents rbac))) (parents rbac)\<rparr>)
      else (Some ErrRoleNotExist, rbac))"

text \<open>
  \<^verbatim>\<open>Get\<close> ranges over \<^verbatim>\<open>rbac.parents[id]\<close>; a range over a nil map has no
  iterations.
\<close>

definition Get :: "'k range_order \<Rightarrow> ('k, 'p) RBAC \<Rightarrow> 'k \<Rightarrow> error + ('k, 'p) Role \<times> 'k list" where
  "Get ord rbac id' =
     (case fmlookup (roles rbac) id' of
        Some r \<Rightarrow>
          Inr (r, case fmlookup (parents rbac) id' of None \<Rightarrow> [] | Some ids \<Rightarrow> ord [id'] ids)
      | None \<Rightarrow> Inl ErrRoleNotExist)"

section \<open>The access checker\<close>

text \<open>
  The body of \<^verbatim>\<open>for pID := range parents\<close> in \<^verbatim>\<open>recursionCheck\<close>, over the
  parents in the order given: \<open>visit pID\<close> is the outcome of the loop body's test
  (\<open>None\<close> when the recursive call does not return), the first \<open>True\<close> returns
  \<open>True\<close> from the function, and the end of the loop falls through to
  \<^verbatim>\<open>return false\<close>.
\<close>

fun range_parents :: "('k \<Rightarrow> bool option) \<Rightarrow> 'k list \<Rightarrow> bool option" where
  "range_parents visit [] = Some False"
| "range_parents visit (pID # rest) =
     Option.bind (visit pID) (\<lambda>granted. if granted then Some True else range_parents visit rest)"

lemma range_parents_mono [partial_function_mono]:
  assumes "\<And>pID. mono_option (\<lambda>f. visit f pID)"
  shows "mono_option (\<lambda>f. range_parents (visit f) pIDs)"
proof (induction pIDs)
  case Nil
  show ?case by (simp add: option.const_mono)
next
  case (Cons pID rest)
  show ?case
    unfolding range_parents.simps
    by (intro bind_mono assms if_mono option.const_mono Cons)
qed

text \<open>
  \<^verbatim>\<open>recursionCheck\<close> has no guard against a cycle of parents, so it is a partial
  function: \<open>None\<close> is a call that never returns. \<open>path\<close> is the chain of role ids
  from the queried role down to \<open>id\<close>, which names the loop for the range order.
\<close>

partial_function (option) recursionCheck ::
  "'k range_order \<Rightarrow> ('k, 'p) RBAC \<Rightarrow> 'k list \<Rightarrow> 'k \<Rightarrow> 'p \<Rightarrow> bool option" where
  "recursionCheck ord rbac path id' p =
     (case fmlookup (roles rbac) id' of
        Some role \<Rightarrow>
          if Permit role p then Some True
          else (case fmlookup (parents rbac) id' of
                  Some ps \<Rightarrow>
                    range_parents
                      (\<lambda>pID. if fmlookup (roles rbac) pID \<noteq> None
                             then recursionCheck ord rbac (pID # path) pID p
                             else Some False)
                      (ord path ps)
                | None \<Rightarrow> Some False)
      | None \<Rightarrow> Some False)"

text \<open>
  \<^verbatim>\<open>AssertionFunc[K] func(*RBAC[K], K, Permission[K]) bool\<close> is a function value
  supplied by the caller. Calling it may have effects outside the engine (a closure can
  count or log its calls), so it is a function of everything it can touch outside the
  engine, the world \<open>'w\<close>, which it returns updated; it reads the engine and cannot
  write it under the read lock. \<open>None\<close> is the nil hook.
\<close>

type_synonym ('k, 'p, 'w) AssertionFunc = "('k, 'p) RBAC \<Rightarrow> 'k \<Rightarrow> 'p \<Rightarrow> 'w \<Rightarrow> bool \<times> 'w"

text \<open>
  The result is the value returned (\<open>None\<close> when the call never returns) and the world
  as the hook calls made so far have left it.
\<close>

definition isGranted ::
  "'k range_order \<Rightarrow> ('k, 'p) RBAC \<Rightarrow> 'k \<Rightarrow> 'p \<Rightarrow> ('k, 'p, 'w) AssertionFunc option \<Rightarrow> 'w
     \<Rightarrow> bool option \<times> 'w" where
  "isGranted ord rbac id' p assert w =
     (case assert of
        None \<Rightarrow> (recursionCheck ord rbac [id'] id' p, w)
      | Some f \<Rightarrow>
          (case f rbac id' p w of
             (ok, w') \<Rightarrow>
               if \<not> ok then (Some False, w')
               else (recursionCheck ord rbac [id'] id' p, w')))"

text \<open>
  \<^verbatim>\<open>IsGranted\<close> is \<^verbatim>\<open>isGranted\<close> between \<^verbatim>\<open>RLock\<close> and \<^verbatim>\<open>RUnlock\<close>; the
  lock calls of all methods are in the next section.
\<close>

definition IsGranted ::
  "'k range_order \<Rightarrow> ('k, 'p) RBAC \<Rightarrow> 'k \<Rightarrow> 'p \<Rightarrow> ('k, 'p, 'w) AssertionFunc option \<Rightarrow> 'w
     \<Rightarrow> bool option \<times> 'w" where
  "IsGranted ord rbac id' p assert w = isGranted ord rbac id' p assert w"

section \<open>Locking discipline\<close>

text \<open>
  Every public method brackets its body with one call that acquires
  \<^verbatim>\<open>rbac.mutex\<close> and one that releases it. The methods, and the call each one makes
  on entry and on exit (directly or through \<^verbatim>\<open>defer\<close>):
\<close>

datatype mutex_call = Lock | Unlock | RLock | RUnlock

datatype public_method =
  mSetParents | mGetParents | mSetParent | mRemoveParent | mAdd | mRemove | mGet | mIsGranted

fun on_entry :: "public_method \<Rightarrow> mutex_call" where
  "on_entry mSetParents = Lock"
| "on_entry mGetParents = Lock"
| "on_entry mSetParent = Lock"
| "on_entry mRemoveParent = Lock"
| "on_entry mAdd = Lock"
| "on_entry mRemove = Lock"
| "on_entry mGet = RLock"
| "on_entry mIsGranted = RLock"

fun on_exit :: "public_method \<Rightarrow> mutex_call" where
  "on_exit mSetParents = Unlock"
| "on_exit mGetParents = Unlock"
| "on_exit mSetParent = Unlock"
| "on_exit mRemoveParent = Unlock"
| "on_exit mAdd = Unlock"
| "on_exit mRemove = Unlock"
| "on_exit mGet = RUnlock"
| "on_exit mIsGranted = RUnlock"

text \<open>
  \<^verbatim>\<open>sync.RWMutex\<close> of the Go standard library, as far as mutual exclusion goes: the
  lock is held by one writer, or by any number of readers, or by nobody. A call returns
  the lock as it leaves it, or \<open>None\<close> when it cannot proceed in this state: an
  acquiring call then waits, a releasing call is a fatal error.
\<close>

record RWMutex =
  writer :: bool
  readers :: nat

definition unlocked :: RWMutex where
  "unlocked = \<lparr>writer = False, readers = 0\<rparr>"

fun call_mutex :: "mutex_call \<Rightarrow> RWMutex \<Rightarrow> RWMutex option" where
  "call_mutex Lock m =
     (if \<not> writer m \<and> readers m = 0 then Some (m\<lparr>writer := True\<rparr>) else None)"
| "call_mutex RLock m =
     (if \<not> writer m then Some (m\<lparr>readers := Suc (readers m)\<rparr>) else None)"
| "call_mutex Unlock m =
     (if writer m then Some (m\<lparr>writer := False\<rparr>) else None)"
| "call_mutex RUnlock m =
     (if 0 < readers m then Some (m\<lparr>readers := readers m - 1\<rparr>) else None)"

text \<open>\<open>enter_all ms m\<close>: the methods \<open>ms\<close> enter one after the other, none leaving.\<close>

fun enter_all :: "public_method list \<Rightarrow> RWMutex \<Rightarrow> RWMutex option" where
  "enter_all [] m = Some m"
| "enter_all (x # xs) m = Option.bind (call_mutex (on_entry x) m) (enter_all xs)"

section \<open>Notions the properties are stated with\<close>

text \<open>The parent graph: an edge from each key of \<^verbatim>\<open>rbac.parents\<close> to each member of its bucket.\<close>

definition parent_edges :: "('k, 'p) RBAC \<Rightarrow> ('k \<times> 'k) set" where
  "parent_edges rbac = {(a, b). \<exists>ps. fmlookup (parents rbac) a = Some ps \<and> b |\<in>| ps}"

text \<open>The role itself and everything it reaches by parent edges.\<close>

definition ancestors :: "('k, 'p) RBAC \<Rightarrow> 'k \<Rightarrow> 'k set" where
  "ancestors rbac id' = (parent_edges rbac)\<^sup>* `` {id'}"

text \<open>The part of the parent graph reachable from a role has no cycle.\<close>

definition acyclic_from :: "('k, 'p) RBAC \<Rightarrow> 'k \<Rightarrow> bool" where
  "acyclic_from rbac id' \<longleftrightarrow>
     acyclic (parent_edges rbac \<inter> ancestors rbac id' \<times> ancestors rbac id')"

text \<open>The parent edges both of whose ends are in the role store.\<close>

definition store_edges :: "('k, 'p) RBAC \<Rightarrow> ('k \<times> 'k) set" where
  "store_edges rbac =
     {(a, b). (a, b) \<in> parent_edges rbac \<and>
              fmlookup (roles rbac) a \<noteq> None \<and> fmlookup (roles rbac) b \<noteq> None}"

text \<open>
  Some role reached from \<open>id\<close> by zero or more parent edges, every id on the way being
  in the role store, directly grants \<open>p\<close>.
\<close>

definition inherits :: "('k, 'p) RBAC \<Rightarrow> 'k \<Rightarrow> 'p \<Rightarrow> bool" where
  "inherits rbac id' p \<longleftrightarrow>
     (\<exists>r role. (id', r) \<in> (store_edges rbac)\<^sup>* \<and>
               fmlookup (roles rbac) r = Some role \<and> Permit role p)"

text \<open>The parent set of a role: empty when the role has no bucket.\<close>

definition parents_of :: "('k, 'p) RBAC \<Rightarrow> 'k \<Rightarrow> 'k fset" where
  "parents_of rbac id' = (case fmlookup (parents rbac) id' of None \<Rightarrow> {||} | Some ps \<Rightarrow> ps)"

text \<open>
  A hook that decides by the predicate \<open>h\<close> and appends the arguments of each of its
  calls to a log, which is its world.
\<close>

definition logged ::
  "(('k, 'p) RBAC \<Rightarrow> 'k \<Rightarrow> 'p \<Rightarrow> bool) \<Rightarrow> ('k, 'p, (('k, 'p) RBAC \<times> 'k \<times> 'p) list) AssertionFunc" where
  "logged h rbac id' p log = (h rbac id' p, log @ [(rbac, id', p)])"

text \<open>
  The engines that a program can build: \<^verbatim>\<open>New\<close>, then any sequence of public
  methods. The fields are unexported, and \<^verbatim>\<open>Get\<close>, \<^verbatim>\<open>GetParents\<close> and
  \<^verbatim>\<open>IsGranted\<close> do not write them, so the five mutating methods are the steps.
\<close>

inductive reachable :: "('k, 'p) RBAC \<Rightarrow> bool" where
  reach_New: "reachable New"
| reach_Add: "reachable rbac \<Longrightarrow> reachable (snd (Add rbac r))"
| reach_Remove: "reachable rbac \<Longrightarrow> valid_order ord \<Longrightarrow> reachable (snd (Remove ord rbac id'))"
| reach_SetParents: "reachable rbac \<Longrightarrow> reachable (snd (SetParents rbac id' ps))"
| reach_SetParent: "reachable rbac \<Longrightarrow> reachable (snd (SetParent rbac id' parent))"
| reach_RemoveParent: "reachable rbac \<Longrightarrow> reachable (snd (RemoveParent rbac id' parent))"

text \<open>
  Every role id in the parent graph, as a key or as a member of a bucket, is in the role
  store.
\<close>

definition edges_in_store :: "('k, 'p) RBAC \<Rightarrow> bool" where
  "edges_in_store rbac \<longleftrightarrow>
     (\<forall>a ps. fmlookup (parents rbac) a = Some ps \<longrightarrow>
        fmlookup (roles rbac) a \<noteq> None \<and> (\<forall>b. b |\<in>| ps \<longrightarrow> fmlookup (roles rbac) b \<noteq> None))"

text \<open>
  The scenario of the specification, with role ids 1 for "admin" and 2 for "editor":
  add both roles, then make admin the parent of editor.
\<close>

definition admin :: "(nat, string) Role" where
  "admin = \<lparr>ID = 1, Permit = (\<lambda>p. p = ''delete'')\<rparr>"

definition editor :: "(nat, string) Role" where
  "editor = \<lparr>ID = 2, Permit = (\<lambda>p. p = ''edit'')\<rparr>"

definition demo :: "(nat, string) RBAC" where
  "demo = snd (SetParent (snd (Add (snd (Add New admin)) editor)) 2 1)"

text \<open>A role that is its own parent: add editor, then make it its own parent.\<close>

definition self_parent :: "(nat, string) RBAC" where
  "self_parent = snd (SetParent (snd (Add New editor)) 2 2)"

text \<open>A third role for the scenario, with id 3.\<close>

definition viewer :: "(nat, string) Role" where
  "viewer = \<lparr>ID = 3, Permit = (\<lambda>p. p = ''view'')\<rparr>"

section \<open>Range orders\<close>

lemma valid_ascending: "valid_order (ascending :: ('k::linorder) range_order)"
  unfolding valid_order_def ascending_def
proof (intro allI conjI)
  fix S :: "'k fset"
  show "distinct (sorted_list_of_fset S)" by (simp add: sorted_list_of_fset.rep_eq)
  show "fset_of_list (sorted_list_of_fset S) = S" by simp
qed

lemma valid_order_single: "valid_order ord \<Longrightarrow> ord site {|a|} = [a]"
proof -
  assume v: "valid_order ord"
  then have d: "distinct (ord site {|a|})" and s: "set (ord site {|a|}) = {a}"
    unfolding valid_order_def by (metis, metis fset_of_list.rep_eq fset_simps)
  show ?thesis
  proof (cases "ord site {|a|}")
    case Nil
    with s show ?thesis by simp
  next
    case (Cons x xs)
    with s have "x = a" by auto
    moreover have "xs = []"
    proof (cases xs)
      case (Cons y ys)
      with \<open>ord site {|a|} = x # xs\<close> s have "y = a" by auto
      with \<open>x = a\<close> Cons \<open>ord site {|a|} = x # xs\<close> d show ?thesis by simp
    qed simp
    ultimately show ?thesis using Cons by simp
  qed
qed

lemma ascending_empty: "ascending site {||} = []"
  by (simp add: ascending_def sorted_list_of_fset.rep_eq)

lemma ascending_finsert: "ascending site (finsert x S) = insort x (ascending site (S |-| {|x|}))"
  by (simp add: ascending_def sorted_list_of_fset.rep_eq sorted_list_of_set_insert_remove)


lemma valid_order_set: "valid_order ord \<Longrightarrow> set (ord site S) = fset S"
  unfolding valid_order_def by (metis fset_of_list.rep_eq)

lemma valid_order_empty: "valid_order ord \<Longrightarrow> ord site {||} = []"
  using valid_order_set[of ord site "{||}"] by simp

section \<open>The access checker on an acyclic graph\<close>

lemma range_parents_all:
  "\<forall>x\<in>set xs. visit x = Some (g x) \<Longrightarrow> range_parents visit xs = Some (\<exists>x\<in>set xs. g x)"
  by (induction xs) auto

lemma finite_parent_edges: "finite (parent_edges rbac)"
proof -
  have "parent_edges rbac \<subseteq> fmdom' (parents rbac) \<times> \<Union> (fset ` fmran' (parents rbac))"
    by (auto simp: parent_edges_def fmlookup_dom'_iff intro: fmran'I)
  moreover have "finite (fmdom' (parents rbac) \<times> \<Union> (fset ` fmran' (parents rbac)))"
    by (auto simp: fmran'_alt_def)
  ultimately show ?thesis by (rule finite_subset)
qed

lemma inherits_absent:
  assumes "fmlookup (roles rbac) a = None"
  shows "\<not> inherits rbac a p"
proof
  assume "inherits rbac a p"
  then obtain r role where path: "(a, r) \<in> (store_edges rbac)\<^sup>*"
    and r: "fmlookup (roles rbac) r = Some role"
    unfolding inherits_def by blast
  from path show False
  proof (cases rule: converse_rtranclE)
    case base
    with r assms show False by simp
  next
    case (step z)
    with assms show False by (simp add: store_edges_def)
  qed
qed

lemma inherits_present: "inherits rbac a p \<Longrightarrow> \<exists>role. fmlookup (roles rbac) a = Some role"
  using inherits_absent[of rbac a p] by (cases "fmlookup (roles rbac) a") simp_all

lemma inherits_unfold:
  assumes a: "fmlookup (roles rbac) a = Some role"
  shows "inherits rbac a p \<longleftrightarrow>
           Permit role p \<or> (\<exists>b. (a, b) \<in> store_edges rbac \<and> inherits rbac b p)"
proof
  assume "inherits rbac a p"
  then obtain r role' where path: "(a, r) \<in> (store_edges rbac)\<^sup>*"
    and r: "fmlookup (roles rbac) r = Some role'" and permit: "Permit role' p"
    unfolding inherits_def by blast
  from path show "Permit role p \<or> (\<exists>b. (a, b) \<in> store_edges rbac \<and> inherits rbac b p)"
  proof (cases rule: converse_rtranclE)
    case base
    with a r permit show ?thesis by simp
  next
    case (step z)
    with r permit have "inherits rbac z p" unfolding inherits_def by blast
    with step show ?thesis by blast
  qed
next
  assume "Permit role p \<or> (\<exists>b. (a, b) \<in> store_edges rbac \<and> inherits rbac b p)"
  then show "inherits rbac a p"
  proof
    assume "Permit role p"
    with a show ?thesis unfolding inherits_def by blast
  next
    assume "\<exists>b. (a, b) \<in> store_edges rbac \<and> inherits rbac b p"
    then obtain b r role' where "(a, b) \<in> store_edges rbac" "(b, r) \<in> (store_edges rbac)\<^sup>*"
      "fmlookup (roles rbac) r = Some role'" "Permit role' p"
      unfolding inherits_def by blast
    then show ?thesis
      unfolding inherits_def by (blast intro: converse_rtrancl_into_rtrancl)
  qed
qed

lemma recursionCheck_total:
  fixes rbac :: "('k, 'p) RBAC"
  assumes ord: "valid_order ord" and acyc: "acyclic_from rbac id0"
  shows "a \<in> ancestors rbac id0 \<Longrightarrow> recursionCheck ord rbac path a p = Some (inherits rbac a p)"
proof -
  let ?A = "ancestors rbac id0"
  let ?R = "(parent_edges rbac \<inter> ?A \<times> ?A)\<inverse>"
  have "finite ?R" using finite_parent_edges[of rbac] by simp
  moreover have "acyclic ?R" using acyc by (simp add: acyclic_from_def)
  ultimately have "wf ?R" by (simp add: wf_iff_acyclic_if_finite)
  then show "a \<in> ?A \<Longrightarrow> recursionCheck ord rbac path a p = Some (inherits rbac a p)"
  proof (induction a arbitrary: path rule: wf_induct_rule)
    case (less a)
    show ?case
    proof (cases "fmlookup (roles rbac) a")
      case None
      then show ?thesis
        by (subst recursionCheck.simps) (simp add: inherits_absent)
    next
      case (Some role)
      show ?thesis
      proof (cases "Permit role p")
        case True
        with Some inherits_unfold[OF Some, of p] show ?thesis
          by (subst recursionCheck.simps) simp
      next
        case False
        show ?thesis
        proof (cases "fmlookup (parents rbac) a")
          case None
          then have "\<And>b. (a, b) \<notin> store_edges rbac"
            by (simp add: store_edges_def parent_edges_def)
          with Some False None inherits_unfold[OF Some, of p] show ?thesis
            by (subst recursionCheck.simps) simp
        next
          case ps: (Some ps)
          let ?visit = "\<lambda>pID. if fmlookup (roles rbac) pID \<noteq> None
                             then recursionCheck ord rbac (pID # path) pID p else Some False"
          have set_ord: "set (ord path ps) = fset ps"
            using ord unfolding valid_order_def by (metis fset_of_list.rep_eq)
          have visit: "?visit b = Some (inherits rbac b p)" if "b |\<in>| ps" for b
          proof (cases "fmlookup (roles rbac) b")
            case None
            then show ?thesis by (simp add: inherits_absent)
          next
            case (Some rb)
            have edge: "(a, b) \<in> parent_edges rbac"
              using ps that by (auto simp: parent_edges_def)
            with less.prems have "b \<in> ?A"
              unfolding ancestors_def by (auto intro: rtrancl_into_rtrancl)
            moreover from this edge less.prems have "(b, a) \<in> ?R" by simp
            ultimately have "recursionCheck ord rbac (b # path) b p = Some (inherits rbac b p)"
              by (rule less.IH[rotated])
            with Some show ?thesis by simp
          qed
          have "range_parents ?visit (ord path ps) = Some (\<exists>b\<in>set (ord path ps). inherits rbac b p)"
          proof (rule range_parents_all, rule ballI)
            fix b assume "b \<in> set (ord path ps)"
            then have "b |\<in>| ps" by (simp add: set_ord)
            then show "?visit b = Some (inherits rbac b p)" by (rule visit)
          qed
          moreover have "(\<exists>b\<in>fset ps. inherits rbac b p) \<longleftrightarrow> (\<exists>b. (a, b) \<in> store_edges rbac \<and> inherits rbac b p)"
            using ps Some by (auto simp: store_edges_def parent_edges_def dest: inherits_present)
          ultimately show ?thesis
            using Some False ps inherits_unfold[OF Some, of p]
            by (subst recursionCheck.simps) (simp add: set_ord)
        qed
      qed
    qed
  qed
qed


lemma self_in_ancestors: "a \<in> ancestors rbac a"
  by (simp add: ancestors_def)

text \<open>A direct grant returns at once, whatever the parents are, cyclic or not.\<close>

lemma recursionCheck_direct_grant:
  assumes "fmlookup (roles rbac) a = Some role" and "Permit role p"
  shows "recursionCheck ord rbac path a p = Some True"
  using assms by (subst recursionCheck.simps) simp

text \<open>A role that does not grant \<open>p\<close> and is its own only parent: the recursion never returns.\<close>

lemma self_loop_never_returns:
  assumes "recursionCheck ord rbac path a p = Some y" 
    and "valid_order ord"
    and "fmlookup (roles rbac) a = Some role" and "\<not> Permit role p"
    and "fmlookup (parents rbac) a = Some {|a|}"
  shows False
  using assms
proof (induction arbitrary: role rule: recursionCheck.raw_induct[rotated 1, consumes 1])
  case (1 f ord rbac path a p y)
  from 1 have "f ord rbac (a # path) a p \<noteq> None"
    by (auto simp: valid_order_single split: bind_splits if_splits)
  then obtain z where "f ord rbac (a # path) a p = Some z" by blast
  then show ?case using "1.IH" "1.prems" by blast
qed


section \<open>The loops of the mutating methods\<close>

lemma fmupd_same: "fmlookup m k = Some v \<Longrightarrow> fmupd k v m = m"
  by (rule fmap_ext) auto

lemma check_parents_None: "check_parents rs ps = None \<longleftrightarrow> (\<forall>parent\<in>set ps. fmlookup rs parent \<noteq> None)"
  by (induction ps) auto

lemma check_parents_Some: "check_parents rs ps = Some e \<Longrightarrow> e = ErrRoleNotExist"
  by (induction ps) (auto split: if_splits)

lemma put_parents_bucket:
  "fmlookup ps a = Some bucket \<Longrightarrow>
   put_parents ps a xs = Inr (fmupd a (bucket |\<union>| fset_of_list xs) ps)"
proof (induction xs arbitrary: ps bucket)
  case Nil
  then show ?case by (simp add: fmupd_same)
next
  case (Cons x xs)
  have "fmlookup (fmupd a (finsert x bucket) ps) a = Some (finsert x bucket)" by simp
  from Cons.IH[OF this] Cons.prems show ?case
    by (simp add: put_parent_def)
qed

lemma ensure_bucket_lookup:
  "fmlookup (ensure_bucket ps a) b =
     (if b = a then Some (case fmlookup ps a of None \<Rightarrow> {||} | Some bucket \<Rightarrow> bucket)
      else fmlookup ps b)"
  by (auto simp: ensure_bucket_def split: option.splits)

lemma fmupd_ensure_bucket: "fmupd a v (ensure_bucket ps a) = fmupd a v ps"
  by (simp add: ensure_bucket_def)

lemma SetParents_success:
  assumes "fmlookup (roles rbac) a \<noteq> None" and "\<forall>parent\<in>set ps. fmlookup (roles rbac) parent \<noteq> None"
  shows "SetParents rbac a ps =
           (None, rbac\<lparr>parents := fmupd a (parents_of rbac a |\<union>| fset_of_list ps) (parents rbac)\<rparr>)"
proof -
  have "check_parents (roles rbac) ps = None"
    using assms(2) by (simp add: check_parents_None)
  moreover have "put_parents (ensure_bucket (parents rbac) a) a ps =
      Inr (fmupd a (parents_of rbac a |\<union>| fset_of_list ps) (ensure_bucket (parents rbac) a))"
    by (rule put_parents_bucket) (simp add: ensure_bucket_lookup parents_of_def)
  ultimately show ?thesis
    using assms(1) by (simp add: SetParents_def fmupd_ensure_bucket)
qed

lemma SetParents_failure:
  assumes "fmlookup (roles rbac) a = None \<or> (\<exists>parent\<in>set ps. fmlookup (roles rbac) parent = None)"
  shows "SetParents rbac a ps = (Some ErrRoleNotExist, rbac)"
proof (cases "fmlookup (roles rbac) a = None")
  case True
  then show ?thesis by (simp add: SetParents_def)
next
  case False
  with assms have "check_parents (roles rbac) ps \<noteq> None"
    by (simp add: check_parents_None)
  then obtain e where "check_parents (roles rbac) ps = Some e" by blast
  with check_parents_Some[OF this] False show ?thesis
    by (simp add: SetParents_def)
qed

lemma SetParent_success:
  assumes "fmlookup (roles rbac) a \<noteq> None" and "fmlookup (roles rbac) parent \<noteq> None"
  shows "SetParent rbac a parent =
           (None, rbac\<lparr>parents := fmupd a (finsert parent (parents_of rbac a)) (parents rbac)\<rparr>)"
  using assms
  by (simp add: SetParent_def put_parent_def ensure_bucket_lookup parents_of_def fmupd_ensure_bucket)

lemma SetParent_failure:
  assumes "fmlookup (roles rbac) a = None \<or> fmlookup (roles rbac) parent = None"
  shows "SetParent rbac a parent = (Some ErrRoleNotExist, rbac)"
  using assms by (auto simp: SetParent_def)

lemma scrub_bucket_lookup:
  assumes "fmlookup ps rid = Some bucket" and "set xs = fset bucket"
  shows "fmlookup (scrub_bucket a rid xs ps) k =
           (if k = rid then Some (bucket |-| {|a|}) else fmlookup ps k)"
proof -
  have step: "scrub_bucket a rid ys ps = (if a \<in> set ys then delete_parent ps rid a else ps)" for ys
    by (induction ys) auto
  show ?thesis
  proof (cases "a \<in> set xs")
    case True
    with assms show ?thesis by (simp add: step delete_parent_def)
  next
    case False
    with assms(2) have "bucket |-| {|a|} = bucket" by auto
    with False assms(1) show ?thesis by (simp add: step)
  qed
qed

lemma scrub_lookup:
  assumes "valid_order ord"
  shows "fmlookup (scrub ord a ks ps) k =
           (if k \<in> set ks then (if k = a then None else map_option (\<lambda>S. S |-| {|a|}) (fmlookup ps k))
            else fmlookup ps k)"
proof (induction ks arbitrary: ps)
  case Nil
  show ?case by simp
next
  case (Cons rid rest)
  show ?case
  proof (cases "fmlookup ps rid")
    case None
    then show ?thesis by (auto simp: Cons.IH)
  next
    case (Some bucket)
    show ?thesis
    proof (cases "rid = a")
      case True
      with Some show ?thesis by (auto simp: Cons.IH)
    next
      case False
      have "set (ord [rid] bucket) = fset bucket"
        using assms by (rule valid_order_set)
      from scrub_bucket_lookup[OF Some this] Some False show ?thesis
        by (auto simp: Cons.IH option.map_comp comp_def)
    qed
  qed
qed

lemma scrub_all:
  assumes "valid_order ord"
  shows "scrub ord a (ord [] (fmdom ps)) ps = fmmap (\<lambda>S. S |-| {|a|}) (fmdrop a ps)"
proof (rule fmap_ext)
  fix k
  have "set (ord [] (fmdom ps)) = fmdom' ps"
    using valid_order_set[OF assms] by (simp add: fmdom'_alt_def)
  then show "fmlookup (scrub ord a (ord [] (fmdom ps)) ps) k =
             fmlookup (fmmap (\<lambda>S. S |-| {|a|}) (fmdrop a ps)) k"
    by (auto simp: scrub_lookup[OF assms] fmlookup_dom'_iff)
qed

lemma GetParents_set:
  assumes "valid_order ord" and "GetParents ord rbac a = Inr xs"
  shows "set xs = fset (parents_of rbac a)"
proof (cases "fmlookup (parents rbac) a")
  case None
  with assms(2) show ?thesis
    by (simp add: GetParents_def parents_of_def split: if_splits)
next
  case (Some ids)
  with assms(2) have "xs = ord [a] ids"
    by (simp add: GetParents_def split: if_splits)
  with Some valid_order_set[OF assms(1), of "[a]" ids] show ?thesis
    by (simp add: parents_of_def)
qed

lemma GetParents_present:
  assumes "fmlookup (roles rbac) a \<noteq> None"
  shows "\<exists>xs. GetParents ord rbac a = Inr xs"
  using assms by (simp add: GetParents_def split: option.splits)

lemma parents_of_upd:
  "parents_of (rbac\<lparr>parents := fmupd a S (parents rbac)\<rparr>) b = (if b = a then S else parents_of rbac b)"
  by (simp add: parents_of_def)

lemma Remove_success:
  assumes "valid_order ord" and present: "fmlookup (roles rbac) a \<noteq> None"
  shows "Remove ord rbac a =
      (None, \<lparr>roles = fmdrop a (roles rbac),
              parents = fmmap (\<lambda>bucket. bucket |-| {|a|}) (fmdrop a (parents rbac))\<rparr>)"
proof -
  have "Remove ord rbac a = (None, rbac\<lparr>roles := fmdrop a (roles rbac),
                       parents := scrub ord a (ord [] (fmdom (parents rbac))) (parents rbac)\<rparr>)"
    using present unfolding Remove_def by (rule if_P)
  also have "scrub ord a (ord [] (fmdom (parents rbac))) (parents rbac) =
     fmmap (\<lambda>bucket. bucket |-| {|a|}) (fmdrop a (parents rbac))"
    using assms(1) by (rule scrub_all)
  finally show ?thesis by simp
qed

lemma Remove_absent: "fmlookup (roles rbac) a = None \<Longrightarrow> Remove ord rbac a = (Some ErrRoleNotExist, rbac)"
  by (simp add: Remove_def)

lemma parents_of_scrubbed:
  "parents_of \<lparr>roles = rs, parents = fmmap (\<lambda>bucket. bucket |-| {|a|}) (fmdrop a ps)\<rparr> b =
     (if b = a then {||} else parents_of \<lparr>roles = rs, parents = ps\<rparr> b |-| {|a|})"
  by (simp add: parents_of_def split: option.splits)

lemma SetParents_cases:
  "SetParents rbac a ps = (Some ErrRoleNotExist, rbac) \<or> fst (SetParents rbac a ps) = None"
proof (cases "fmlookup (roles rbac) a \<noteq> None \<and> (\<forall>parent\<in>set ps. fmlookup (roles rbac) parent \<noteq> None)")
  case True
  then show ?thesis by (simp add: SetParents_success)
next
  case False
  then have "SetParents rbac a ps = (Some ErrRoleNotExist, rbac)"
    by (intro SetParents_failure) auto
  then show ?thesis ..
qed

lemma SetParent_cases:
  "SetParent rbac a parent = (Some ErrRoleNotExist, rbac) \<or> fst (SetParent rbac a parent) = None"
proof (cases "fmlookup (roles rbac) a \<noteq> None \<and> fmlookup (roles rbac) parent \<noteq> None")
  case True
  then show ?thesis by (simp add: SetParent_success)
next
  case False
  then have "SetParent rbac a parent = (Some ErrRoleNotExist, rbac)"
    by (intro SetParent_failure) auto
  then show ?thesis ..
qed

text \<open>The bucket is made before the edge is put in it: the assignment never panics.\<close>

lemma SetParents_never_panics: "fst (SetParents rbac a ps) \<noteq> Some PanicNilMap"
  using SetParents_cases[of rbac a ps] by auto

lemma SetParent_never_panics: "fst (SetParent rbac a parent) \<noteq> Some PanicNilMap"
  using SetParent_cases[of rbac a parent] by auto

lemma RemoveParent_success:
  assumes "fmlookup (roles rbac) a \<noteq> None" and "fmlookup (roles rbac) parent \<noteq> None"
  shows "RemoveParent rbac a parent = (None, rbac\<lparr>parents := delete_parent (parents rbac) a parent\<rparr>)"
  using assms by (simp add: RemoveParent_def)

section \<open>The scenario states\<close>

lemma demo_eq:
  "demo = \<lparr>roles = fmupd 2 editor (fmupd 1 admin fmempty), parents = fmupd 2 {|1|} fmempty\<rparr>"
  by (simp add: demo_def SetParent_def Add_def New_def admin_def editor_def
      ensure_bucket_def put_parent_def)

lemma parent_edges_demo: "parent_edges demo = {(2, 1)}"
  by (auto simp: demo_eq parent_edges_def split: if_splits)

lemma acyclic_demo: "acyclic_from demo a"
proof -
  have "acyclic ({} :: (nat \<times> nat) set)" by (simp add: acyclic_def)
  then have "acyclic (parent_edges demo)" by (simp add: parent_edges_demo)
  then show ?thesis
    unfolding acyclic_from_def by (rule acyclic_subset) simp
qed

lemmas demo_eval = demo_eq admin_def editor_def ascending_empty ascending_finsert

lemma self_parent_eq: "self_parent = \<lparr>roles = fmupd 2 editor fmempty, parents = fmupd 2 {|2|} fmempty\<rparr>"
  by (simp add: self_parent_def SetParent_def Add_def New_def editor_def
      ensure_bucket_def put_parent_def)

lemma Remove_demo_admin:
  "Remove ascending demo 1 =
     (None, \<lparr>roles = fmupd 2 editor fmempty, parents = fmupd 2 {||} fmempty\<rparr>)"
  by (simp add: Remove_def demo_eval delete_parent_def fmdrop_fmupd)

lemma with_viewer_eq:
  "snd (Add demo viewer) =
     \<lparr>roles = fmupd 3 viewer (fmupd 2 editor (fmupd 1 admin fmempty)), parents = fmupd 2 {|1|} fmempty\<rparr>"
  by (simp add: Add_def demo_eq viewer_def)

lemma SetParents_with_viewer:
  "SetParents (snd (Add demo viewer)) 2 [3] =
     (None, \<lparr>roles = fmupd 3 viewer (fmupd 2 editor (fmupd 1 admin fmempty)),
             parents = fmupd 2 {|3, 1|} fmempty\<rparr>)"
  unfolding with_viewer_eq
  by (simp add: SetParents_def put_parent_def ensure_bucket_def)

lemma two_roles_eq:
  "snd (Add (snd (Add New admin)) editor) =
     \<lparr>roles = fmupd 2 editor (fmupd 1 admin fmempty), parents = fmempty\<rparr>"
  by (simp add: Add_def New_def admin_def editor_def)

lemma reachable_demo: "reachable demo"
  unfolding demo_def by (intro reachable.intros)

section \<open>Permission resolution\<close>

lemma inherits_ancestor:
  assumes "inherits rbac a p"
  shows "\<exists>r\<in>ancestors rbac a. \<exists>role. fmlookup (roles rbac) r = Some role \<and> Permit role p"
proof -
  from assms obtain r role where path: "(a, r) \<in> (store_edges rbac)\<^sup>*"
    and r: "fmlookup (roles rbac) r = Some role" "Permit role p"
    unfolding inherits_def by blast
  have "store_edges rbac \<subseteq> parent_edges rbac" by (auto simp: store_edges_def)
  from rtrancl_mono[OF this] path have "r \<in> ancestors rbac a"
    by (auto simp: ancestors_def)
  with r show ?thesis by blast
qed

text \<open>
  C1. Let the part of the parent graph reachable from \<open>id\<close> be acyclic. With a nil hook,
  \<^verbatim>\<open>IsGranted(id, p, nil)\<close> returns, and returns true exactly when some role reached
  from \<open>id\<close> by zero or more parent edges, every role on the way being in the store,
  directly grants \<open>p\<close>. In particular it returns true when the role itself grants \<open>p\<close>,
  and false when neither the role nor any ancestor grants \<open>p\<close>. This holds for every
  order in which the loops visit the parents, and the hook's world is untouched.
\<close>

theorem IsGranted_nil_iff_inherits:
  assumes "valid_order ord" and "acyclic_from rbac id'"
  shows "IsGranted ord rbac id' p None w = (Some (inherits rbac id' p), w) \<and>
         (\<forall>role. fmlookup (roles rbac) id' = Some role \<and> Permit role p \<longrightarrow>
            IsGranted ord rbac id' p None w = (Some True, w)) \<and>
         ((\<forall>r\<in>ancestors rbac id'. \<forall>role. fmlookup (roles rbac) r = Some role \<longrightarrow> \<not> Permit role p) \<longrightarrow>
            IsGranted ord rbac id' p None w = (Some False, w))"
proof -
  have res: "IsGranted ord rbac id' p None w = (Some (inherits rbac id' p), w)"
    using recursionCheck_total[OF assms self_in_ancestors]
    by (simp add: IsGranted_def isGranted_def)
  have "inherits rbac id' p" if "fmlookup (roles rbac) id' = Some role" "Permit role p" for role
    using that by (simp add: inherits_unfold)
  moreover have "\<not> inherits rbac id' p"
    if "\<forall>r\<in>ancestors rbac id'. \<forall>role. fmlookup (roles rbac) r = Some role \<longrightarrow> \<not> Permit role p"
    using that inherits_ancestor[of rbac id' p] by blast
  ultimately show ?thesis using res by auto
qed

text \<open>
  The scenario: editor is granted "edit" directly and "delete" through admin; admin is
  not granted "edit".
\<close>

theorem IsGranted_nil_iff_inherits_witness:
  "valid_order (ascending :: nat range_order) \<and> acyclic_from demo 2 \<and> acyclic_from demo 1 \<and>
   IsGranted ascending demo 2 ''edit'' None () = (Some True, ()) \<and>
   IsGranted ascending demo 2 ''delete'' None () = (Some True, ()) \<and> inherits demo 2 ''delete'' \<and>
   IsGranted ascending demo 1 ''edit'' None () = (Some False, ()) \<and> \<not> inherits demo 1 ''edit''"
proof -
  have v: "valid_order (ascending :: nat range_order)" by (rule valid_ascending)
  have e1: "IsGranted ascending demo 2 ''edit'' None () = (Some True, ())"
    by (simp add: IsGranted_def isGranted_def recursionCheck.simps demo_eval)
  have e2: "IsGranted ascending demo 2 ''delete'' None () = (Some True, ())"
    by (simp add: IsGranted_def isGranted_def recursionCheck.simps demo_eval)
  have e3: "IsGranted ascending demo 1 ''edit'' None () = (Some False, ())"
    by (simp add: IsGranted_def isGranted_def recursionCheck.simps demo_eval)
  from IsGranted_nil_iff_inherits[OF v acyclic_demo, of 2 "''delete''" "()"]
    IsGranted_nil_iff_inherits[OF v acyclic_demo, of 1 "''edit''" "()"]
  show ?thesis
    using e1 e2 e3 v acyclic_demo[of 1] acyclic_demo[of 2] by simp
qed

text \<open>
  C6. When the part of the parent graph reachable from the queried role is acyclic, the
  recursion of \<^verbatim>\<open>recursionCheck\<close> returns, whatever the order of the loops, and so
  does \<^verbatim>\<open>IsGranted\<close>, with any hook. Acyclicity is needed: on a role that does not
  grant the permission and is its own only parent, the recursion never returns.
\<close>

theorem recursionCheck_terminates:
  "(valid_order ord \<and> acyclic_from rbac id' \<longrightarrow>
      (\<exists>b. recursionCheck ord rbac [id'] id' p = Some b) \<and>
      fst (IsGranted ord rbac id' p assert w) \<noteq> None) \<and>
   (valid_order ord \<and> fmlookup (roles rbac) id' = Some role \<and> \<not> Permit role p \<and>
    fmlookup (parents rbac) id' = Some {|id'|} \<longrightarrow>
      recursionCheck ord rbac [id'] id' p = None \<and> fst (IsGranted ord rbac id' p None w) = None)"
proof (intro conjI impI)
  assume h: "valid_order ord \<and> acyclic_from rbac id'"
  then have "valid_order ord" and "acyclic_from rbac id'" by simp_all
  then have r: "recursionCheck ord rbac [id'] id' p = Some (inherits rbac id' p)"
    using self_in_ancestors by (rule recursionCheck_total)
  then show "\<exists>b. recursionCheck ord rbac [id'] id' p = Some b" by blast
  from r show "fst (IsGranted ord rbac id' p assert w) \<noteq> None"
    by (simp add: IsGranted_def isGranted_def split: option.splits prod.splits)
next
  assume h: "valid_order ord \<and> fmlookup (roles rbac) id' = Some role \<and> \<not> Permit role p \<and>
    fmlookup (parents rbac) id' = Some {|id'|}"
  have never: "recursionCheck ord rbac [id'] id' p \<noteq> Some y" for y
    using self_loop_never_returns[of ord rbac "[id']" id' p y role] h by blast
  show n: "recursionCheck ord rbac [id'] id' p = None"
  proof (cases "recursionCheck ord rbac [id'] id' p")
    case (Some y)
    with never[of y] show ?thesis by contradiction
  qed
  then show "fst (IsGranted ord rbac id' p None w) = None"
    by (simp add: IsGranted_def isGranted_def)
qed

text \<open>The recursion returns on the scenario and does not return on the self-parent.\<close>

theorem recursionCheck_terminates_witness:
  "valid_order (ascending :: nat range_order) \<and> acyclic_from demo 2 \<and>
   recursionCheck ascending demo [2] 2 ''delete'' = Some True \<and>
   fmlookup (roles self_parent) 2 = Some editor \<and> \<not> Permit editor ''delete'' \<and>
   fmlookup (parents self_parent) 2 = Some {|2|} \<and>
   recursionCheck ascending self_parent [2] 2 ''delete'' = None"
proof -
  have v: "valid_order (ascending :: nat range_order)" by (rule valid_ascending)
  have "recursionCheck ascending demo [2] 2 ''delete'' = Some True"
    by (simp add: recursionCheck.simps demo_eval)
  moreover have "fmlookup (roles self_parent) 2 = Some editor \<and> \<not> Permit editor ''delete'' \<and>
      fmlookup (parents self_parent) 2 = Some {|2|}"
    by (simp add: self_parent_eq editor_def)
  ultimately show ?thesis
    using recursionCheck_terminates[of ascending demo 2 "''delete''" None "()" editor]
      recursionCheck_terminates[of ascending self_parent 2 "''delete''" None "()" editor]
      v acyclic_demo[of 2]
    by simp
qed


text \<open>
  C2. \<^verbatim>\<open>IsGranted\<close> has no error result. For a role id that is not in the role
  store it returns false, for every permission, every hook (nil, assenting or vetoing)
  and every range order, whereas \<^verbatim>\<open>Get\<close>, \<^verbatim>\<open>GetParents\<close>, \<^verbatim>\<open>SetParent\<close>,
  \<^verbatim>\<open>SetParents\<close> and \<^verbatim>\<open>RemoveParent\<close> fail with \<^verbatim>\<open>ErrRoleNotExist\<close> on that
  id, the mutating ones leaving the engine as it was.
\<close>

theorem IsGranted_absent_role:
  assumes "fmlookup (roles rbac) id' = None"
  shows "fst (IsGranted ord rbac id' p assert w) = Some False \<and>
         Get ord rbac id' = Inl ErrRoleNotExist \<and>
         GetParents ord rbac id' = Inl ErrRoleNotExist \<and>
         SetParent rbac id' parent = (Some ErrRoleNotExist, rbac) \<and>
         SetParents rbac id' ps = (Some ErrRoleNotExist, rbac) \<and>
         RemoveParent rbac id' parent = (Some ErrRoleNotExist, rbac)"
proof -
  have "recursionCheck ord rbac [id'] id' p = Some False"
    using assms by (subst recursionCheck.simps) simp
  then have "fst (IsGranted ord rbac id' p assert w) = Some False"
    by (simp add: IsGranted_def isGranted_def split: option.splits prod.splits)
  moreover have "Get ord rbac id' = Inl ErrRoleNotExist"
    using assms by (simp add: Get_def)
  moreover have "GetParents ord rbac id' = Inl ErrRoleNotExist"
    using assms by (simp add: GetParents_def)
  moreover have "SetParent rbac id' parent = (Some ErrRoleNotExist, rbac)"
    using assms by (simp add: SetParent_def)
  moreover have "SetParents rbac id' ps = (Some ErrRoleNotExist, rbac)"
    using assms by (simp add: SetParents_def)
  moreover have "RemoveParent rbac id' parent = (Some ErrRoleNotExist, rbac)"
    using assms by (simp add: RemoveParent_def)
  ultimately show ?thesis by simp
qed

text \<open>Role 3 is not in the scenario.\<close>

theorem IsGranted_absent_role_witness:
  "fmlookup (roles demo) 3 = None \<and>
   fst (IsGranted ascending demo 3 ''edit'' (Some (logged (\<lambda>rbac a p. True))) []) = Some False \<and>
   GetParents ascending demo 3 = Inl ErrRoleNotExist \<and>
   SetParents demo 3 [1, 2] = (Some ErrRoleNotExist, demo)"
proof -
  have "fmlookup (roles demo) 3 = None" by (simp add: demo_eq)
  from IsGranted_absent_role[OF this, of ascending "''edit''" "Some (logged (\<lambda>rbac a p. True))" "[]" _ "[1, 2]"] this
  show ?thesis by simp
qed

text \<open>
  C3. With a hook \<open>f\<close>: when \<open>f\<close> returns false on (engine, id, p) the result is
  false whatever the graph; when it returns true the result is that of the structural
  resolution, the same as with a nil hook. The world after the call is the world after
  one call of \<open>f\<close> on (engine, id, p): the hook runs exactly once per call of
  \<^verbatim>\<open>IsGranted\<close> and never in the recursion, which does not take the hook. For a hook that
  logs its calls, the log holds the one entry; with a nil hook the world is unchanged.
  On an acyclic reachable parent graph the result is true exactly when the hook assents
  and some role reached from \<open>id\<close> grants \<open>p\<close>: an assenting hook grants nothing by
  itself.
\<close>

theorem IsGranted_hook_veto:
  "IsGranted ord rbac id' p (Some f) w =
     (if fst (f rbac id' p w) then fst (IsGranted ord rbac id' p None w) else Some False,
      snd (f rbac id' p w)) \<and>
   snd (IsGranted ord rbac id' p (Some (logged h)) []) = [(rbac, id', p)] \<and>
   snd (IsGranted ord rbac id' p None w) = w \<and>
   (valid_order ord \<and> acyclic_from rbac id' \<longrightarrow>
      IsGranted ord rbac id' p (Some f) w =
        (Some (fst (f rbac id' p w) \<and> inherits rbac id' p), snd (f rbac id' p w)))"
proof (intro conjI impI)
  show eq: "IsGranted ord rbac id' p (Some f) w =
     (if fst (f rbac id' p w) then fst (IsGranted ord rbac id' p None w) else Some False,
      snd (f rbac id' p w))"
    by (simp add: IsGranted_def isGranted_def split: prod.splits)
  show "snd (IsGranted ord rbac id' p (Some (logged h)) []) = [(rbac, id', p)]"
    by (simp add: IsGranted_def isGranted_def logged_def)
  show "snd (IsGranted ord rbac id' p None w) = w"
    by (simp add: IsGranted_def isGranted_def)
  assume "valid_order ord \<and> acyclic_from rbac id'"
  then have "valid_order ord" and "acyclic_from rbac id'" by simp_all
  then have "recursionCheck ord rbac [id'] id' p = Some (inherits rbac id' p)"
    using self_in_ancestors by (rule recursionCheck_total)
  then have "fst (IsGranted ord rbac id' p None w) = Some (inherits rbac id' p)"
    by (simp add: IsGranted_def isGranted_def)
  with eq show "IsGranted ord rbac id' p (Some f) w =
        (Some (fst (f rbac id' p w) \<and> inherits rbac id' p), snd (f rbac id' p w))"
    by simp
qed

text \<open>
  A vetoing hook denies what editor is granted; an assenting hook grants editor "edit"
  and does not grant admin "edit"; each call logs once.
\<close>

theorem IsGranted_hook_veto_witness:
  "valid_order (ascending :: nat range_order) \<and> acyclic_from demo 2 \<and> acyclic_from demo 1 \<and>
   IsGranted ascending demo 2 ''edit'' (Some (logged (\<lambda>rbac a p. False))) [] =
     (Some False, [(demo, 2, ''edit'')]) \<and>
   IsGranted ascending demo 2 ''edit'' (Some (logged (\<lambda>rbac a p. True))) [] =
     (Some True, [(demo, 2, ''edit'')]) \<and>
   IsGranted ascending demo 1 ''edit'' (Some (logged (\<lambda>rbac a p. True))) [] =
     (Some False, [(demo, 1, ''edit'')]) \<and>
   inherits demo 2 ''edit'' \<and> \<not> inherits demo 1 ''edit''"
proof -
  have v: "valid_order (ascending :: nat range_order)" by (rule valid_ascending)
  have e1: "IsGranted ascending demo 2 ''edit'' None w = (Some True, w)"
    for w :: "((nat, string) RBAC \<times> nat \<times> string) list"
    by (simp add: IsGranted_def isGranted_def recursionCheck.simps demo_eval)
  have e2: "IsGranted ascending demo 1 ''edit'' None w = (Some False, w)"
    for w :: "((nat, string) RBAC \<times> nat \<times> string) list"
    by (simp add: IsGranted_def isGranted_def recursionCheck.simps demo_eval)
  show ?thesis
    using IsGranted_hook_veto[of ascending demo 2 "''edit''" "logged (\<lambda>rbac a p. False)" "[]" "\<lambda>rbac a p. False"]
      IsGranted_hook_veto[of ascending demo 2 "''edit''" "logged (\<lambda>rbac a p. True)" "[]" "\<lambda>rbac a p. True"]
      IsGranted_hook_veto[of ascending demo 1 "''edit''" "logged (\<lambda>rbac a p. True)" "[]" "\<lambda>rbac a p. True"]
      e1[of "[]"] e2[of "[]"] v acyclic_demo[of 1] acyclic_demo[of 2]
    by (auto simp: logged_def)
qed

section \<open>The mutating methods\<close>

text \<open>
  C4. For a role id in the role store, \<^verbatim>\<open>Remove(id)\<close> returns no error and leaves
  the engine with the role deleted from the store, the bucket of \<open>id\<close> deleted from the
  parent graph and \<open>id\<close> removed from every other bucket, whatever the range order;
  afterwards no \<^verbatim>\<open>GetParents\<close> result contains \<open>id\<close>. For an id that is not in the
  store, \<^verbatim>\<open>Remove(id)\<close> returns \<^verbatim>\<open>ErrRoleNotExist\<close>.
\<close>

theorem Remove_scrubs:
  assumes "valid_order ord"
  shows "(fmlookup (roles rbac) id' \<noteq> None \<longrightarrow>
            Remove ord rbac id' =
              (None, \<lparr>roles = fmdrop id' (roles rbac),
                      parents = fmmap (\<lambda>bucket. bucket |-| {|id'|}) (fmdrop id' (parents rbac))\<rparr>) \<and>
            (\<forall>ord' a xs. valid_order ord' \<and> GetParents ord' (snd (Remove ord rbac id')) a = Inr xs
               \<longrightarrow> id' \<notin> set xs)) \<and>
         (fmlookup (roles rbac) id' = None \<longrightarrow> Remove ord rbac id' = (Some ErrRoleNotExist, rbac))"
proof (intro conjI impI allI)
  assume present: "fmlookup (roles rbac) id' \<noteq> None"
  with assms show res: "Remove ord rbac id' =
      (None, \<lparr>roles = fmdrop id' (roles rbac),
              parents = fmmap (\<lambda>bucket. bucket |-| {|id'|}) (fmdrop id' (parents rbac))\<rparr>)"
    by (rule Remove_success)
  fix ord' a xs
  assume h: "valid_order ord' \<and> GetParents ord' (snd (Remove ord rbac id')) a = Inr xs"
  then have "valid_order ord'" and "GetParents ord' (snd (Remove ord rbac id')) a = Inr xs"
    by simp_all
  then have "set xs = fset (parents_of (snd (Remove ord rbac id')) a)"
    by (rule GetParents_set)
  then have "set xs = fset (parents_of \<lparr>roles = fmdrop id' (roles rbac),
              parents = fmmap (\<lambda>bucket. bucket |-| {|id'|}) (fmdrop id' (parents rbac))\<rparr> a)"
    by (simp only: res snd_conv)
  then show "id' \<notin> set xs"
    by (simp only: parents_of_scrubbed) (simp split: if_splits)
next
  assume "fmlookup (roles rbac) id' = None"
  then show "Remove ord rbac id' = (Some ErrRoleNotExist, rbac)"
    by (rule Remove_absent)
qed

text \<open>Removing admin from the scenario empties the parent set of editor.\<close>

theorem Remove_scrubs_witness:
  "valid_order (ascending :: nat range_order) \<and> fmlookup (roles demo) 1 \<noteq> None \<and>
   GetParents ascending demo 2 = Inr [1] \<and>
   Remove ascending demo 1 =
     (None, \<lparr>roles = fmupd 2 editor fmempty, parents = fmupd 2 {||} fmempty\<rparr>) \<and>
   GetParents ascending (snd (Remove ascending demo 1)) 2 = Inr [] \<and>
   fmlookup (roles demo) 3 = None \<and> Remove ascending demo 3 = (Some ErrRoleNotExist, demo)"
proof -
  have v: "valid_order (ascending :: nat range_order)" by (rule valid_ascending)
  have g: "GetParents ascending demo 2 = Inr [1]"
    by (simp add: GetParents_def demo_eval)
  have g': "GetParents ascending (snd (Remove ascending demo 1)) 2 = Inr []"
    unfolding Remove_demo_admin by (simp add: GetParents_def ascending_empty)
  have l: "fmlookup (roles demo) 1 \<noteq> None" "fmlookup (roles demo) 3 = None"
    by (simp_all add: demo_eq)
  from Remove_scrubs[OF v, of demo 3] l(2) have "Remove ascending demo 3 = (Some ErrRoleNotExist, demo)"
    by blast
  with v g g' l Remove_demo_admin show ?thesis by blast
qed

text \<open>
  C5. Each of \<^verbatim>\<open>Add\<close>, \<^verbatim>\<open>Remove\<close>, \<^verbatim>\<open>SetParents\<close>, \<^verbatim>\<open>SetParent\<close> and
  \<^verbatim>\<open>RemoveParent\<close>, when it returns an error, leaves the engine exactly as it was. In
  particular \<^verbatim>\<open>SetParents\<close> with one parent that is not a role adds no edge at all,
  and \<^verbatim>\<open>Add\<close> of an id that is already a role leaves the stored role unchanged.
\<close>

theorem failed_mutation_keeps_state:
  "(fst (Add rbac r) \<noteq> None \<longrightarrow> snd (Add rbac r) = rbac) \<and>
   (fst (Remove ord rbac id') \<noteq> None \<longrightarrow> snd (Remove ord rbac id') = rbac) \<and>
   (fst (SetParents rbac id' ps) \<noteq> None \<longrightarrow> snd (SetParents rbac id' ps) = rbac) \<and>
   (fst (SetParent rbac id' parent) \<noteq> None \<longrightarrow> snd (SetParent rbac id' parent) = rbac) \<and>
   (fst (RemoveParent rbac id' parent) \<noteq> None \<longrightarrow> snd (RemoveParent rbac id' parent) = rbac) \<and>
   (parent \<in> set ps \<and> fmlookup (roles rbac) parent = None \<longrightarrow>
      SetParents rbac id' ps = (Some ErrRoleNotExist, rbac)) \<and>
   (fmlookup (roles rbac) (ID r) = Some r0 \<longrightarrow>
      Add rbac r = (Some ErrRoleExist, rbac) \<and> fmlookup (roles (snd (Add rbac r))) (ID r) = Some r0)"
proof -
  have "fst (Add rbac r) \<noteq> None \<longrightarrow> snd (Add rbac r) = rbac"
    by (simp add: Add_def)
  moreover have "fst (Remove ord rbac id') \<noteq> None \<longrightarrow> snd (Remove ord rbac id') = rbac"
    by (simp add: Remove_def)
  moreover have "fst (SetParents rbac id' ps) \<noteq> None \<longrightarrow> snd (SetParents rbac id' ps) = rbac"
    using SetParents_cases[of rbac id' ps] by auto
  moreover have "fst (SetParent rbac id' parent) \<noteq> None \<longrightarrow> snd (SetParent rbac id' parent) = rbac"
    using SetParent_cases[of rbac id' parent] by auto
  moreover have "fst (RemoveParent rbac id' parent) \<noteq> None \<longrightarrow>
      snd (RemoveParent rbac id' parent) = rbac"
    by (simp add: RemoveParent_def)
  moreover have "parent \<in> set ps \<and> fmlookup (roles rbac) parent = None \<longrightarrow>
      SetParents rbac id' ps = (Some ErrRoleNotExist, rbac)"
    using SetParents_failure[of rbac id' ps] by blast
  moreover have "fmlookup (roles rbac) (ID r) = Some r0 \<longrightarrow>
      Add rbac r = (Some ErrRoleExist, rbac) \<and> fmlookup (roles (snd (Add rbac r))) (ID r) = Some r0"
    by (simp add: Add_def)
  ultimately show ?thesis by blast
qed

text \<open>
  On the scenario: a batch with the missing role 3, a second admin with other permissions,
  and the other three methods on the missing role 3.
\<close>

theorem failed_mutation_keeps_state_witness:
  "fst (SetParents demo 2 [1, 3]) = Some ErrRoleNotExist \<and> snd (SetParents demo 2 [1, 3]) = demo \<and>
   fmlookup (roles demo) (ID (admin\<lparr>Permit := \<lambda>p. True\<rparr>)) = Some admin \<and>
   fst (Add demo (admin\<lparr>Permit := \<lambda>p. True\<rparr>)) = Some ErrRoleExist \<and>
   fmlookup (roles (snd (Add demo (admin\<lparr>Permit := \<lambda>p. True\<rparr>)))) 1 = Some admin \<and>
   fst (Remove ascending demo 3) = Some ErrRoleNotExist \<and> snd (Remove ascending demo 3) = demo \<and>
   fst (SetParent demo 2 3) = Some ErrRoleNotExist \<and> snd (SetParent demo 2 3) = demo \<and>
   fst (RemoveParent demo 3 1) = Some ErrRoleNotExist \<and> snd (RemoveParent demo 3 1) = demo"
proof -
  have e: "fst (SetParents demo 2 [1, 3]) = Some ErrRoleNotExist"
    "fst (Add demo (admin\<lparr>Permit := \<lambda>p. True\<rparr>)) = Some ErrRoleExist"
    "fst (Remove ascending demo 3) = Some ErrRoleNotExist"
    "fst (SetParent demo 2 3) = Some ErrRoleNotExist"
    "fst (RemoveParent demo 3 1) = Some ErrRoleNotExist"
    "fmlookup (roles demo) (ID (admin\<lparr>Permit := \<lambda>p. True\<rparr>)) = Some admin"
    "ID (admin\<lparr>Permit := \<lambda>p. True\<rparr>) = 1"
    by (simp_all add: SetParents_def Add_def Remove_def SetParent_def RemoveParent_def demo_eq admin_def)
  from failed_mutation_keeps_state[of demo "admin\<lparr>Permit := \<lambda>p. True\<rparr>" ascending 3 "[1, 3]" 3 admin]
    failed_mutation_keeps_state[of demo "admin\<lparr>Permit := \<lambda>p. True\<rparr>" ascending 2 "[1, 3]" 3 admin]
    failed_mutation_keeps_state[of demo "admin\<lparr>Permit := \<lambda>p. True\<rparr>" ascending 3 "[1, 3]" 1 admin]
    e
  show ?thesis by simp
qed

text \<open>
  C7. \<^verbatim>\<open>SetParents(id, parents)\<close> succeeds when \<open>id\<close> and every listed parent are
  roles, and a successful call makes the parent set of \<open>id\<close> the union of its previous
  parent set and the listed ids: the previous parents stay and every listed id becomes a
  parent. No other bucket and no role changes, and \<^verbatim>\<open>GetParents(id)\<close> then lists
  exactly that union.
\<close>

theorem SetParents_union:
  "(fmlookup (roles rbac) id' \<noteq> None \<and> (\<forall>parent\<in>set ps. fmlookup (roles rbac) parent \<noteq> None) \<longrightarrow>
      fst (SetParents rbac id' ps) = None) \<and>
   (fst (SetParents rbac id' ps) = None \<longrightarrow>
      parents_of (snd (SetParents rbac id' ps)) id' = parents_of rbac id' |\<union>| fset_of_list ps \<and>
      (\<forall>a. a \<noteq> id' \<longrightarrow>
         fmlookup (parents (snd (SetParents rbac id' ps))) a = fmlookup (parents rbac) a) \<and>
      roles (snd (SetParents rbac id' ps)) = roles rbac \<and>
      (\<forall>ord. valid_order ord \<longrightarrow>
         (\<exists>xs. GetParents ord (snd (SetParents rbac id' ps)) id' = Inr xs \<and>
               set xs = fset (parents_of rbac id') \<union> set ps)))"
proof (intro conjI impI)
  assume "fmlookup (roles rbac) id' \<noteq> None \<and> (\<forall>parent\<in>set ps. fmlookup (roles rbac) parent \<noteq> None)"
  then show "fst (SetParents rbac id' ps) = None"
    by (simp add: SetParents_success)
next
  let ?new = "rbac\<lparr>parents := fmupd id' (parents_of rbac id' |\<union>| fset_of_list ps) (parents rbac)\<rparr>"
  assume ok: "fst (SetParents rbac id' ps) = None"
  have res: "SetParents rbac id' ps = (None, ?new)"
  proof (cases "fmlookup (roles rbac) id' \<noteq> None \<and> (\<forall>parent\<in>set ps. fmlookup (roles rbac) parent \<noteq> None)")
    case True
    then show ?thesis by (simp add: SetParents_success)
  next
    case False
    then have "SetParents rbac id' ps = (Some ErrRoleNotExist, rbac)"
      by (intro SetParents_failure) auto
    with ok show ?thesis by simp
  qed
  have present: "fmlookup (roles rbac) id' \<noteq> None"
  proof
    assume "fmlookup (roles rbac) id' = None"
    then have "SetParents rbac id' ps = (Some ErrRoleNotExist, rbac)"
      by (intro SetParents_failure) simp
    with ok show False by simp
  qed
  show u: "parents_of (snd (SetParents rbac id' ps)) id' = parents_of rbac id' |\<union>| fset_of_list ps"
    unfolding res snd_conv by (simp add: parents_of_upd)
  show "\<forall>a. a \<noteq> id' \<longrightarrow>
         fmlookup (parents (snd (SetParents rbac id' ps))) a = fmlookup (parents rbac) a"
    unfolding res snd_conv by simp
  show r: "roles (snd (SetParents rbac id' ps)) = roles rbac"
    unfolding res snd_conv by simp
  show "\<forall>ord. valid_order ord \<longrightarrow>
         (\<exists>xs. GetParents ord (snd (SetParents rbac id' ps)) id' = Inr xs \<and>
               set xs = fset (parents_of rbac id') \<union> set ps)"
  proof (intro allI impI)
    fix ord :: "'a range_order"
    assume v: "valid_order ord"
    from present r obtain xs where xs: "GetParents ord (snd (SetParents rbac id' ps)) id' = Inr xs"
      using GetParents_present[of "snd (SetParents rbac id' ps)" id' ord] by auto
    from GetParents_set[OF v xs] u have "set xs = fset (parents_of rbac id') \<union> set ps"
      by (simp add: fset_of_list.rep_eq)
    with xs show "\<exists>xs. GetParents ord (snd (SetParents rbac id' ps)) id' = Inr xs \<and>
               set xs = fset (parents_of rbac id') \<union> set ps" by blast
  qed
qed

text \<open>Editor has parent admin; setting its parents to viewer leaves it with both.\<close>

theorem SetParents_union_witness:
  "fmlookup (roles (snd (Add demo viewer))) 2 \<noteq> None \<and>
   fmlookup (roles (snd (Add demo viewer))) 3 \<noteq> None \<and>
   fst (SetParents (snd (Add demo viewer)) 2 [3]) = None \<and>
   parents_of (snd (Add demo viewer)) 2 = {|1|} \<and>
   parents_of (snd (SetParents (snd (Add demo viewer)) 2 [3])) 2 = {|1, 3|} \<and>
   GetParents ascending (snd (SetParents (snd (Add demo viewer)) 2 [3])) 2 = Inr [1, 3]"
proof -
  have v: "valid_order (ascending :: nat range_order)" by (rule valid_ascending)
  have p: "fmlookup (roles (snd (Add demo viewer))) 2 \<noteq> None \<and>
      (\<forall>parent\<in>set [3]. fmlookup (roles (snd (Add demo viewer))) parent \<noteq> None)"
    unfolding with_viewer_eq by simp
  have o: "parents_of (snd (Add demo viewer)) 2 = {|1|}"
    unfolding with_viewer_eq by (simp add: parents_of_def)
  have g: "GetParents ascending (snd (SetParents (snd (Add demo viewer)) 2 [3])) 2 = Inr [1, 3]"
    unfolding SetParents_with_viewer
    by (simp add: GetParents_def ascending_finsert ascending_empty)
  from SetParents_union[of "snd (Add demo viewer)" 2 "[3]"] p
  have ok: "fst (SetParents (snd (Add demo viewer)) 2 [3]) = None" by blast
  with SetParents_union[of "snd (Add demo viewer)" 2 "[3]"]
  have "parents_of (snd (SetParents (snd (Add demo viewer)) 2 [3])) 2 =
      parents_of (snd (Add demo viewer)) 2 |\<union>| fset_of_list [3]" by blast
  with o have "parents_of (snd (SetParents (snd (Add demo viewer)) 2 [3])) 2 = {|1, 3|}"
    by auto
  moreover have "fmlookup (roles (snd (Add demo viewer))) 3 \<noteq> None"
    using p by simp
  ultimately show ?thesis using p ok o g by blast
qed

text \<open>
  C8. When \<open>a\<close> and \<open>b\<close> are roles and \<open>a\<close> has no parents, \<^verbatim>\<open>SetParent(a, b)\<close>
  followed by \<^verbatim>\<open>RemoveParent(a, b)\<close> both succeed and \<^verbatim>\<open>GetParents(a)\<close> then
  returns the empty list and no error. \<^verbatim>\<open>RemoveParent(id, parent)\<close> returns no error
  whenever both ids are roles, whether the edge is there or not.
\<close>

theorem SetParent_RemoveParent:
  "(valid_order ord \<and> fmlookup (roles rbac) a \<noteq> None \<and> fmlookup (roles rbac) b \<noteq> None \<and>
    parents_of rbac a = {||} \<longrightarrow>
      fst (SetParent rbac a b) = None \<and>
      fst (RemoveParent (snd (SetParent rbac a b)) a b) = None \<and>
      GetParents ord (snd (RemoveParent (snd (SetParent rbac a b)) a b)) a = Inr []) \<and>
   (fmlookup (roles rbac) id' \<noteq> None \<and> fmlookup (roles rbac) parent \<noteq> None \<longrightarrow>
      fst (RemoveParent rbac id' parent) = None)"
proof (intro conjI impI)
  assume h: "valid_order ord \<and> fmlookup (roles rbac) a \<noteq> None \<and> fmlookup (roles rbac) b \<noteq> None \<and>
    parents_of rbac a = {||}"
  let ?s1 = "rbac\<lparr>parents := fmupd a {|b|} (parents rbac)\<rparr>"
  let ?s2 = "rbac\<lparr>parents := fmupd a {||} (parents rbac)\<rparr>"
  from h have s1: "SetParent rbac a b = (None, ?s1)"
    by (simp add: SetParent_success)
  then show "fst (SetParent rbac a b) = None" by simp
  from h have "RemoveParent ?s1 a b = (None, ?s1\<lparr>parents := delete_parent (parents ?s1) a b\<rparr>)"
    by (intro RemoveParent_success) simp_all
  then have s2: "RemoveParent ?s1 a b = (None, ?s2)"
    by (simp add: delete_parent_def)
  then show "fst (RemoveParent (snd (SetParent rbac a b)) a b) = None"
    unfolding s1 snd_conv by simp
  from h have "GetParents ord ?s2 a = Inr []"
    by (simp add: GetParents_def valid_order_empty)
  then show "GetParents ord (snd (RemoveParent (snd (SetParent rbac a b)) a b)) a = Inr []"
    unfolding s1 snd_conv s2 by simp
next
  assume "fmlookup (roles rbac) id' \<noteq> None \<and> fmlookup (roles rbac) parent \<noteq> None"
  then show "fst (RemoveParent rbac id' parent) = None"
    by (simp add: RemoveParent_success)
qed

text \<open>
  On the scenario before and after the edge from editor to admin; admin never had
  editor as a parent, and removing that edge succeeds.
\<close>

theorem SetParent_RemoveParent_witness:
  "valid_order (ascending :: nat range_order) \<and>
   fmlookup (roles (snd (Add (snd (Add New admin)) editor))) 2 \<noteq> None \<and>
   fmlookup (roles (snd (Add (snd (Add New admin)) editor))) 1 \<noteq> None \<and>
   parents_of (snd (Add (snd (Add New admin)) editor)) 2 = {||} \<and>
   snd (SetParent (snd (Add (snd (Add New admin)) editor)) 2 1) = demo \<and>
   GetParents ascending demo 2 = Inr [1] \<and>
   RemoveParent demo 2 1 =
     (None, \<lparr>roles = fmupd 2 editor (fmupd 1 admin fmempty), parents = fmupd 2 {||} fmempty\<rparr>) \<and>
   GetParents ascending (snd (RemoveParent demo 2 1)) 2 = Inr [] \<and>
   fst (RemoveParent demo 1 2) = None"
proof -
  have v: "valid_order (ascending :: nat range_order)" by (rule valid_ascending)
  have p: "fmlookup (roles (snd (Add (snd (Add New admin)) editor))) 2 \<noteq> None"
    "fmlookup (roles (snd (Add (snd (Add New admin)) editor))) 1 \<noteq> None"
    "parents_of (snd (Add (snd (Add New admin)) editor)) 2 = {||}"
    unfolding two_roles_eq by (simp_all add: parents_of_def)
  have d: "snd (SetParent (snd (Add (snd (Add New admin)) editor)) 2 1) = demo"
    by (simp add: demo_def)
  have g: "GetParents ascending demo 2 = Inr [1]"
    by (simp add: GetParents_def demo_eval)
  have r: "RemoveParent demo 2 1 =
     (None, \<lparr>roles = fmupd 2 editor (fmupd 1 admin fmempty), parents = fmupd 2 {||} fmempty\<rparr>)"
    by (simp add: RemoveParent_def demo_eq delete_parent_def)
  have pd: "fmlookup (roles demo) 1 \<noteq> None \<and> fmlookup (roles demo) 2 \<noteq> None"
    by (simp add: demo_eq)
  from SetParent_RemoveParent[of ascending "snd (Add (snd (Add New admin)) editor)" 2 1 1 2] v p
  have "GetParents ascending (snd (RemoveParent demo 2 1)) 2 = Inr []"
    unfolding d by blast
  moreover from SetParent_RemoveParent[of ascending demo 2 1 1 2] pd
  have "fst (RemoveParent demo 1 2) = None" by blast
  ultimately show ?thesis using v p d g r by blast
qed

section \<open>Which lock the methods take\<close>

text \<open>Each method releases what it acquired.\<close>

lemma enter_exit_restores:
  "Option.bind (call_mutex (on_entry x) unlocked) (call_mutex (on_exit x)) = Some unlocked"
  by (cases x) (simp_all add: unlocked_def)

text \<open>Any number of \<^verbatim>\<open>Get\<close> and \<^verbatim>\<open>IsGranted\<close> calls are inside together.\<close>

lemma readers_enter:
  assumes "\<forall>x\<in>set xs. x = mGet \<or> x = mIsGranted" and "\<not> writer m"
  shows "enter_all xs m = Some (m\<lparr>readers := readers m + length xs\<rparr>)"
  using assms
proof (induction xs arbitrary: m)
  case Nil
  then show ?case by simp
next
  case (Cons x xs)
  from Cons.prems have x: "on_entry x = RLock" by auto
  from Cons.prems have "enter_all xs (m\<lparr>readers := Suc (readers m)\<rparr>) =
      Some (m\<lparr>readers := Suc (readers m), readers := Suc (readers m) + length xs\<rparr>)"
    using Cons.IH[of "m\<lparr>readers := Suc (readers m)\<rparr>"] by simp
  with Cons.prems x show ?case by simp
qed

text \<open>
  C9. The claim is that \<^verbatim>\<open>Get\<close>, \<^verbatim>\<open>GetParents\<close> and \<^verbatim>\<open>IsGranted\<close> each take
  only the read lock and so run concurrently with each other. \<^verbatim>\<open>Get\<close> and
  \<^verbatim>\<open>IsGranted\<close> do; \<^verbatim>\<open>GetParents\<close> calls \<^verbatim>\<open>rbac.mutex.Lock()\<close>, the write lock:
  a second \<^verbatim>\<open>GetParents\<close>, or a \<^verbatim>\<open>Get\<close>, cannot enter while one
  \<^verbatim>\<open>GetParents\<close> is inside, and \<^verbatim>\<open>GetParents\<close> cannot enter while an
  \<^verbatim>\<open>IsGranted\<close> is inside.
\<close>

theorem GetParents_takes_write_lock:
  "on_entry mGetParents = Lock \<and> on_entry mGet = RLock \<and> on_entry mIsGranted = RLock \<and>
   enter_all [mGetParents, mGetParents] unlocked = None \<and>
   enter_all [mGetParents, mGet] unlocked = None \<and>
   enter_all [mIsGranted, mGetParents] unlocked = None \<and>
   enter_all [mGet, mIsGranted, mGet] unlocked = Some \<lparr>writer = False, readers = 3\<rparr>"
  by (simp add: unlocked_def)

section \<open>The invariant of the parent graph\<close>

lemma edges_in_store_New: "edges_in_store New"
  by (simp add: edges_in_store_def New_def)

lemma edges_in_store_Add:
  assumes "edges_in_store rbac"
  shows "edges_in_store (snd (Add rbac r))"
proof (cases "fmlookup (roles rbac) (ID r)")
  case None
  then have "snd (Add rbac r) = rbac\<lparr>roles := fmupd (ID r) r (roles rbac)\<rparr>"
    by (simp add: Add_def)
  with assms show ?thesis
    unfolding edges_in_store_def by auto
next
  case (Some r0)
  then have "snd (Add rbac r) = rbac" by (simp add: Add_def)
  with assms show ?thesis by simp
qed

lemma edges_in_store_Remove:
  assumes "edges_in_store rbac" and "valid_order ord"
  shows "edges_in_store (snd (Remove ord rbac a))"
proof (cases "fmlookup (roles rbac) a = None")
  case True
  then have "snd (Remove ord rbac a) = rbac" by (simp add: Remove_absent)
  with assms show ?thesis by simp
next
  case False
  have "edges_in_store \<lparr>roles = fmdrop a (roles rbac),
              parents = fmmap (\<lambda>bucket. bucket |-| {|a|}) (fmdrop a (parents rbac))\<rparr>"
    unfolding edges_in_store_def
  proof (intro allI impI)
    fix k ps
    assume "fmlookup (parents \<lparr>roles = fmdrop a (roles rbac),
              parents = fmmap (\<lambda>bucket. bucket |-| {|a|}) (fmdrop a (parents rbac))\<rparr>) k = Some ps"
    then obtain bucket where k: "k \<noteq> a" "fmlookup (parents rbac) k = Some bucket" "ps = bucket |-| {|a|}"
      by (auto split: if_splits)
    with assms(1) have "fmlookup (roles rbac) k \<noteq> None"
      and "\<forall>b. b |\<in>| bucket \<longrightarrow> fmlookup (roles rbac) b \<noteq> None"
      unfolding edges_in_store_def by blast+
    with k show "fmlookup (roles \<lparr>roles = fmdrop a (roles rbac),
              parents = fmmap (\<lambda>bucket. bucket |-| {|a|}) (fmdrop a (parents rbac))\<rparr>) k \<noteq> None \<and>
        (\<forall>b. b |\<in>| ps \<longrightarrow> fmlookup (roles \<lparr>roles = fmdrop a (roles rbac),
              parents = fmmap (\<lambda>bucket. bucket |-| {|a|}) (fmdrop a (parents rbac))\<rparr>) b \<noteq> None)"
      by simp
  qed
  with Remove_success[OF assms(2) False] show ?thesis by simp
qed

lemma edges_in_store_upd:
  assumes "edges_in_store rbac" and "fmlookup (roles rbac) a \<noteq> None"
    and "\<forall>b. b |\<in>| S \<longrightarrow> fmlookup (roles rbac) b \<noteq> None"
  shows "edges_in_store (rbac\<lparr>parents := fmupd a S (parents rbac)\<rparr>)"
  using assms unfolding edges_in_store_def by (auto split: if_splits)

lemma edges_in_store_parents_of:
  "edges_in_store rbac \<Longrightarrow> b |\<in>| parents_of rbac a \<Longrightarrow> fmlookup (roles rbac) b \<noteq> None"
  unfolding edges_in_store_def parents_of_def by (auto split: option.splits)

lemma edges_in_store_SetParents:
  assumes "edges_in_store rbac"
  shows "edges_in_store (snd (SetParents rbac a ps))"
proof (cases "fmlookup (roles rbac) a \<noteq> None \<and> (\<forall>parent\<in>set ps. fmlookup (roles rbac) parent \<noteq> None)")
  case True
  then have "snd (SetParents rbac a ps) =
      rbac\<lparr>parents := fmupd a (parents_of rbac a |\<union>| fset_of_list ps) (parents rbac)\<rparr>"
    by (simp add: SetParents_success)
  moreover have "\<forall>b. b |\<in>| parents_of rbac a |\<union>| fset_of_list ps \<longrightarrow> fmlookup (roles rbac) b \<noteq> None"
    using True edges_in_store_parents_of[OF assms] by (auto simp: fset_of_list.rep_eq)
  ultimately show ?thesis
    using edges_in_store_upd[OF assms] True by simp
next
  case False
  then have "SetParents rbac a ps = (Some ErrRoleNotExist, rbac)"
    by (intro SetParents_failure) auto
  with assms show ?thesis by simp
qed

lemma edges_in_store_SetParent:
  assumes "edges_in_store rbac"
  shows "edges_in_store (snd (SetParent rbac a parent))"
proof (cases "fmlookup (roles rbac) a \<noteq> None \<and> fmlookup (roles rbac) parent \<noteq> None")
  case True
  then have "snd (SetParent rbac a parent) =
      rbac\<lparr>parents := fmupd a (finsert parent (parents_of rbac a)) (parents rbac)\<rparr>"
    by (simp add: SetParent_success)
  moreover have "\<forall>b. b |\<in>| finsert parent (parents_of rbac a) \<longrightarrow> fmlookup (roles rbac) b \<noteq> None"
    using True edges_in_store_parents_of[OF assms] by auto
  ultimately show ?thesis
    using edges_in_store_upd[OF assms] True by simp
next
  case False
  then have "SetParent rbac a parent = (Some ErrRoleNotExist, rbac)"
    by (intro SetParent_failure) auto
  with assms show ?thesis by simp
qed

lemma edges_in_store_RemoveParent:
  assumes "edges_in_store rbac"
  shows "edges_in_store (snd (RemoveParent rbac a parent))"
proof (cases "fmlookup (roles rbac) a \<noteq> None \<and> fmlookup (roles rbac) parent \<noteq> None")
  case True
  then have res: "RemoveParent rbac a parent =
      (None, rbac\<lparr>parents := delete_parent (parents rbac) a parent\<rparr>)"
    by (intro RemoveParent_success) simp_all
  show ?thesis
  proof (cases "fmlookup (parents rbac) a")
    case None
    then have "snd (RemoveParent rbac a parent) = rbac"
      unfolding res by (simp add: delete_parent_def)
    with assms show ?thesis by simp
  next
    case (Some bucket)
    then have "snd (RemoveParent rbac a parent) =
        rbac\<lparr>parents := fmupd a (bucket |-| {|parent|}) (parents rbac)\<rparr>"
      unfolding res by (simp add: delete_parent_def)
    moreover have "\<forall>b. b |\<in>| bucket |-| {|parent|} \<longrightarrow> fmlookup (roles rbac) b \<noteq> None"
      using assms Some unfolding edges_in_store_def by auto
    ultimately show ?thesis
      using edges_in_store_upd[OF assms] True by simp
  qed
next
  case False
  then have "snd (RemoveParent rbac a parent) = rbac"
    by (auto simp: RemoveParent_def)
  with assms show ?thesis by simp
qed

text \<open>
  C10. In every engine built from \<^verbatim>\<open>New\<close> by public methods, every role id in the
  parent graph, as the key of a bucket or as a member of one, is in the role store.
\<close>

theorem reachable_edges_in_store:
  "reachable rbac \<Longrightarrow> edges_in_store rbac"
proof (induction rule: reachable.induct)
  case reach_New
  show ?case by (rule edges_in_store_New)
next
  case (reach_Add rbac r)
  then show ?case by (intro edges_in_store_Add)
next
  case (reach_Remove rbac ord a)
  then show ?case by (intro edges_in_store_Remove)
next
  case (reach_SetParents rbac a ps)
  then show ?case by (intro edges_in_store_SetParents)
next
  case (reach_SetParent rbac a parent)
  then show ?case by (intro edges_in_store_SetParent)
next
  case (reach_RemoveParent rbac a parent)
  then show ?case by (intro edges_in_store_RemoveParent)
qed

text \<open>The scenario with admin removed is such an engine.\<close>

theorem reachable_edges_in_store_witness:
  "reachable (snd (Remove ascending demo 1)) \<and>
   snd (Remove ascending demo 1) =
     \<lparr>roles = fmupd 2 editor fmempty, parents = fmupd 2 {||} fmempty\<rparr> \<and>
   edges_in_store (snd (Remove ascending demo 1))"
proof -
  have "reachable (snd (Remove ascending demo 1))"
    using reachable_demo valid_ascending by (rule reach_Remove)
  moreover from this have "edges_in_store (snd (Remove ascending demo 1))"
    by (rule reachable_edges_in_store)
  moreover have "snd (Remove ascending demo 1) =
     \<lparr>roles = fmupd 2 editor fmempty, parents = fmupd 2 {||} fmempty\<rparr>"
    unfolding Remove_demo_admin by simp
  ultimately show ?thesis by blast
qed

end
